theory Spec2Isabelle
  imports Main
begin

section \<open>JavaScript values and array built-ins used by observer.js\<close>

text \<open>
  An observer is an object; the registry only compares observers with \<open>===\<close>, which on
  objects is identity of reference. Observers are therefore values of an arbitrary type
  \<open>'a\<close> compared with HOL equality. Indices are integer-valued JavaScript numbers,
  modelled as \<open>int\<close>: comparisons of such numbers are exact, and so is \<open>i++\<close> from
  \<open>-2\<^sup>5\<^sup>3\<close> upwards. A parameter the caller may leave out is \<open>Undefined\<close>.
\<close>

datatype arg = Undefined | Number int

text \<open>\<open>array.push(obj)\<close>: the array with \<open>obj\<close> appended, and the new length.\<close>

definition push :: "'a list \<Rightarrow> 'a \<Rightarrow> 'a list \<times> int" where
  "push array obj = (array @ [obj], int (length array) + 1)"

text \<open>
  \<open>array[i]\<close> for an integer \<open>i\<close>: the element, or \<open>undefined\<close> (\<open>None\<close>) when \<open>i\<close>
  is not an index of the array.
\<close>

definition element :: "'a list \<Rightarrow> int \<Rightarrow> 'a option" where
  "element array i =
     (if 0 \<le> i \<and> i < int (length array) then Some (array ! nat i) else None)"

text \<open>
  \<open>array.splice(start, deleteCount)\<close> as ECMAScript defines it: a negative \<open>start\<close> counts
  from the end and is clamped at 0, a \<open>start\<close> beyond the length is clamped at the length,
  and \<open>deleteCount\<close> is clamped between 0 and the number of elements from the start on.
  The result is the array after the call (the removed elements, which \<open>removeAt\<close>
  discards, are not returned).
\<close>

definition splice :: "'a list \<Rightarrow> int \<Rightarrow> int \<Rightarrow> 'a list" where
  "splice array start deleteCount =
     (let len = int (length array);
          actualStart = (if start < 0 then max (len + start) 0 else min start len);
          actualDeleteCount = min (max deleteCount 0) (len - actualStart)
      in take (nat actualStart) array @ drop (nat (actualStart + actualDeleteCount)) array)"

section \<open>ObserverList\<close>

record 'a ObserverList =
  observerList :: "'a list"

definition new_ObserverList :: "'a ObserverList" where
  "new_ObserverList = \<lparr>observerList = []\<rparr>"

text \<open>
  Methods take the receiver \<open>this\<close> first. A method that mutates the receiver returns
  the receiver after the call, next to its JavaScript return value when it has one.
\<close>

definition add :: "'a ObserverList \<Rightarrow> 'a \<Rightarrow> int \<times> 'a ObserverList" where
  "add this obj =
     (case push (observerList this) obj of
        (array, n) \<Rightarrow> (n, this\<lparr>observerList := array\<rparr>))"

definition count :: "'a ObserverList \<Rightarrow> int" where
  "count this = int (length (observerList this))"

definition get :: "'a ObserverList \<Rightarrow> int \<Rightarrow> 'a option" where
  "get this index =
     (if index > -1 \<and> index < int (length (observerList this))
      then element (observerList this) index
      else None)"

text \<open>
  The \<open>while\<close> loop of \<open>indexOf\<close>, on the loop variable \<open>i\<close>. When \<open>i\<close> is
  \<open>undefined\<close> the test \<open>i < length\<close> compares \<open>NaN\<close> and is false, so the loop body
  never runs and the function returns \<open>-1\<close>. The source's \<open>i++\<close> is an addition of
  doubles, which is the integer \<open>i + 1\<close> from \<open>-2\<^sup>5\<^sup>3\<close> up to any length an array can
  have; the model is the source's loop for start indices in that range. Below it the
  source's \<open>i\<close> can stop advancing, and what the loop does there is not modelled.
\<close>

function indexOf_while :: "'a list \<Rightarrow> 'a \<Rightarrow> arg \<Rightarrow> int" where
  "indexOf_while array obj Undefined = -1"
| "indexOf_while array obj (Number i) =
     (if i < int (length array)
      then (if element array i = Some obj then i
            else indexOf_while array obj (Number (i + 1)))
      else -1)"
  by pat_completeness auto
termination
  by (relation "measure (\<lambda>(array, obj, a). case a of Undefined \<Rightarrow> 0
                                         | Number i \<Rightarrow> nat (int (length array) - i))") auto

declare indexOf_while.simps(2) [simp del]

definition indexOf :: "'a ObserverList \<Rightarrow> 'a \<Rightarrow> arg \<Rightarrow> int" where
  "indexOf this obj startIndex = indexOf_while (observerList this) obj startIndex"

definition removeAt :: "'a ObserverList \<Rightarrow> int \<Rightarrow> 'a ObserverList" where
  "removeAt this index = this\<lparr>observerList := splice (observerList this) index 1\<rparr>"

text \<open>A run of \<open>add\<close> calls, one per element of the list, in order.\<close>

definition add_all :: "'a ObserverList \<Rightarrow> 'a list \<Rightarrow> 'a ObserverList" where
  "add_all this objs = foldl (\<lambda>l obj. snd (add l obj)) this objs"

section \<open>Subject\<close>

record 'a Subject =
  observers :: "'a ObserverList"

definition new_Subject :: "'a Subject" where
  "new_Subject = \<lparr>observers = new_ObserverList\<rparr>"

definition addObserver :: "'a Subject \<Rightarrow> 'a \<Rightarrow> 'a Subject" where
  "addObserver this observer = this\<lparr>observers := snd (add (observers this) observer)\<rparr>"

definition removeObserver :: "'a Subject \<Rightarrow> 'a \<Rightarrow> 'a Subject" where
  "removeObserver this observer =
     this\<lparr>observers := removeAt (observers this) (indexOf (observers this) observer (Number 0))\<rparr>"

section \<open>Notification\<close>

text \<open>
  \<open>notify\<close> calls the \<open>update\<close> method of observers, which is code of the observer
  and may do anything: add or remove observers of the subject it is registered with,
  change other state of the program, throw. An \<open>update\<close> method is modelled as a
  function of the argument it is called with, the subject and the rest of the program
  state (\<open>'s\<close>), which returns the value it throws (\<open>None\<close> when it returns normally)
  and the subject and state it leaves behind. Every observer has an \<open>update\<close> method
  (the source's \<open>Observer\<close> constructor installs one), so \<open>update\<close> is total on \<open>'a\<close>.
\<close>

datatype 'e exn = TypeError | Thrown 'e

type_synonym ('a, 'c, 's, 'e) update =
  "'a \<Rightarrow> 'c \<Rightarrow> 'a Subject \<Rightarrow> 's \<Rightarrow> 'e option \<times> 'a Subject \<times> 's"

text \<open>
  The state of a dispatch pass: the subject, the rest of the program state, and the
  \<open>update\<close> calls made so far (observer and argument), oldest first. The last is a
  ghost field: it records what \<open>notify\<close> did and nothing reads it.
\<close>

record ('a, 'c, 's) run =
  subject :: "'a Subject"
  store :: 's
  calls :: "('a \<times> 'c) list"

text \<open>\<open>ob.update(ctx)\<close>: the call is recorded, then the method runs.\<close>

definition call_update ::
  "('a, 'c, 's, 'e) update \<Rightarrow> 'a \<Rightarrow> 'c \<Rightarrow> ('a, 'c, 's) run \<Rightarrow> 'e option \<times> ('a, 'c, 's) run" where
  "call_update update ob ctx r =
     (case update ob ctx (subject r) (store r) of
        (thrown, this', store') \<Rightarrow>
          (thrown, \<lparr>subject = this', store = store', calls = calls r @ [(ob, ctx)]\<rparr>))"

text \<open>
  The \<open>for\<close> loop of \<open>notify\<close>, from index \<open>i\<close> on. \<open>get(i)\<close> reads the list as it is
  when the loop reaches \<open>i\<close>; when it returns \<open>undefined\<close>, reading \<open>.update\<close> of it
  throws a TypeError. Nothing catches what an \<open>update\<close> method throws, so the loop ends
  there.
\<close>

function notify_for ::
  "('a, 'c, 's, 'e) update \<Rightarrow> 'c \<Rightarrow> int \<Rightarrow> int \<Rightarrow> ('a, 'c, 's) run
     \<Rightarrow> 'e exn option \<times> ('a, 'c, 's) run" where
  "notify_for update ctx observerCount i r =
     (if i < observerCount
      then (case get (observers (subject r)) i of
              None \<Rightarrow> (Some TypeError, r)
            | Some ob \<Rightarrow>
                (case call_update update ob ctx r of
                   (Some e, r') \<Rightarrow> (Some (Thrown e), r')
                 | (None, r') \<Rightarrow> notify_for update ctx observerCount (i + 1) r'))
      else (None, r))"
  by pat_completeness auto
termination
  by (relation "measure (\<lambda>(update, ctx, observerCount, i, r). nat (observerCount - i))") auto

declare notify_for.simps [simp del]

definition notify ::
  "('a, 'c, 's, 'e) update \<Rightarrow> 'a Subject \<Rightarrow> 'c \<Rightarrow> 's \<Rightarrow> 'e exn option \<times> ('a, 'c, 's) run" where
  "notify update this ctx s =
     (let observerCount = count (observers this)
      in notify_for update ctx observerCount 0 \<lparr>subject = this, store = s, calls = []\<rparr>)"

section \<open>What update methods may do\<close>

text \<open>
  Properties of the \<open>update\<close> methods registered with a subject, used as hypotheses:
  no method throws; every method leaves the observers that were registered where they
  were and at most appends new ones (it only calls \<open>addObserver\<close>); no method changes
  the subject at all.
\<close>

definition returns_normally :: "('a, 'c, 's, 'e) update \<Rightarrow> bool" where
  "returns_normally update = (\<forall>ob ctx S s. fst (update ob ctx S s) = None)"

definition only_adds :: "('a, 'c, 's, 'e) update \<Rightarrow> bool" where
  "only_adds update =
     (\<forall>ob ctx S s. \<exists>added.
        observerList (observers (fst (snd (update ob ctx S s)))) =
          observerList (observers S) @ added)"

definition leaves_subject :: "('a, 'c, 's, 'e) update \<Rightarrow> bool" where
  "leaves_subject update = (\<forall>ob ctx S s. fst (snd (update ob ctx S s)) = S)"

text \<open>
  The first two again, for the calls a dispatch pass can make: the \<open>update\<close> methods
  of the observers in the list \<open>obs\<close>, called with the argument \<open>ctx\<close>. Nothing is asked
  of the method of an observer outside \<open>obs\<close>, or of a call with another argument.
\<close>

definition returns_normally_for :: "('a, 'c, 's, 'e) update \<Rightarrow> 'c \<Rightarrow> 'a list \<Rightarrow> bool" where
  "returns_normally_for update ctx obs =
     (\<forall>ob\<in>set obs. \<forall>S s. fst (update ob ctx S s) = None)"

definition only_adds_for :: "('a, 'c, 's, 'e) update \<Rightarrow> 'c \<Rightarrow> 'a list \<Rightarrow> bool" where
  "only_adds_for update ctx obs =
     (\<forall>ob\<in>set obs. \<forall>S s. \<exists>added.
        observerList (observers (fst (snd (update ob ctx S s)))) =
          observerList (observers S) @ added)"

text \<open>
  Concrete \<open>update\<close> methods for observers named by numbers. In each, observer 0 is
  the one that does something and every other observer's method is empty.
  \<^item> \<open>quiet\<close>: every method is empty (the \<open>Observer\<close> constructor's default).
  \<^item> \<open>subscribes_3\<close>: observer 0 calls \<open>addObserver\<close> for observer 3.
  \<^item> \<open>adds_one_shot_3\<close>: observer 0 calls \<open>addObserver\<close> for observer 3, and
    observer 3 calls \<open>removeObserver\<close> for itself.
  \<^item> \<open>unsubscribes_itself\<close>: observer 0 calls \<open>removeObserver\<close> for itself.
  \<^item> \<open>hands_over_to_3\<close>: observer 0 calls \<open>addObserver\<close> for observer 3, then
    \<open>removeObserver\<close> for itself.
  \<^item> \<open>first_throws\<close>: observer 0 throws.
\<close>

definition quiet :: "(nat, 'c, 's, 'e) update" where
  "quiet ob ctx S s = (None, S, s)"


definition adds_one_shot_3 :: "(nat, 'c, 's, 'e) update" where
  "adds_one_shot_3 ob ctx S s =
     (if ob = 0 then (None, addObserver S 3, s)
      else if ob = 3 then (None, removeObserver S 3, s)
      else (None, S, s))"

definition unsubscribes_itself :: "(nat, 'c, 's, 'e) update" where
  "unsubscribes_itself ob ctx S s =
     (if ob = 0 then (None, removeObserver S 0, s) else (None, S, s))"


definition first_throws :: "(nat, 'c, 's, string) update" where
  "first_throws ob ctx S s = (if ob = 0 then (Some ''boom'', S, s) else (None, S, s))"

section \<open>Properties of ObserverList\<close>

lemma add_observerList: "observerList (snd (add this obj)) = observerList this @ [obj]"
  by (simp add: add_def push_def)

lemma add_all_observerList: "observerList (add_all this objs) = observerList this @ objs"
  unfolding add_all_def
  by (induction objs arbitrary: this) (simp_all add: add_observerList)

lemma splice_one_in_range:
  "0 \<le> i \<Longrightarrow> i < int (length xs) \<Longrightarrow> splice xs i 1 = take (nat i) xs @ drop (nat i + 1) xs"
  by (simp add: splice_def Let_def nat_add_distrib)

lemma splice_minus_one:
  "xs \<noteq> [] \<Longrightarrow> splice xs (-1) 1 = butlast xs"
  by (cases xs rule: rev_cases) (simp_all add: splice_def Let_def)

lemma splice_minus_one_empty: "splice [] (-1) 1 = []"
  by (simp add: splice_def)

lemma indexOf_while_end:
  "\<not> i < int (length array) \<Longrightarrow> indexOf_while array obj (Number i) = -1"
  by (subst indexOf_while.simps(2)) simp

lemma indexOf_while_hit:
  "i < int (length array) \<Longrightarrow> element array i = Some obj \<Longrightarrow>
   indexOf_while array obj (Number i) = i"
  by (subst indexOf_while.simps(2)) simp

lemma indexOf_while_miss:
  "i < int (length array) \<Longrightarrow> element array i \<noteq> Some obj \<Longrightarrow>
   indexOf_while array obj (Number i) = indexOf_while array obj (Number (i + 1))"
  by (subst indexOf_while.simps(2)) simp

lemma element_in_set: "element xs i = Some x \<Longrightarrow> x \<in> set xs"
  by (auto simp: element_def split: if_splits)

lemma indexOf_while_absent:
  "x \<notin> set xs \<Longrightarrow> indexOf_while xs x (Number s) = -1"
proof (induction xs x "Number s" arbitrary: s rule: indexOf_while.induct)
  case (2 array obj i)
  show ?case
  proof (cases "i < int (length array)")
    case False
    then show ?thesis by (rule indexOf_while_end)
  next
    case True
    have miss: "element array i \<noteq> Some obj"
      using 2(2) element_in_set by fastforce
    from 2(1)[OF True miss 2(2)] show ?thesis
      by (simp add: indexOf_while_miss[OF True miss])
  qed
qed

lemma indexOf_while_from:
  "(indexOf_while xs x (Number s) = -1 \<and> (\<forall>j\<ge>s. element xs j \<noteq> Some x))
   \<or> (s \<le> indexOf_while xs x (Number s) \<and> element xs (indexOf_while xs x (Number s)) = Some x
       \<and> (\<forall>j. s \<le> j \<and> j < indexOf_while xs x (Number s) \<longrightarrow> element xs j \<noteq> Some x))"
proof (induction xs x "Number s" arbitrary: s rule: indexOf_while.induct)
  case (2 array obj i)
  show ?case
  proof (cases "i < int (length array)")
    case False
    then show ?thesis by (auto simp: element_def indexOf_while_end)
  next
    case True
    show ?thesis
    proof (cases "element array i = Some obj")
      case True
      with \<open>i < int (length array)\<close> show ?thesis by (auto simp: indexOf_while_hit)
    next
      case False
      have step: "indexOf_while array obj (Number i) = indexOf_while array obj (Number (i + 1))"
        using True False by (rule indexOf_while_miss)
      let ?r = "indexOf_while array obj (Number (i + 1))"
      have split: "j = i \<or> i + 1 \<le> j" if "i \<le> j" for j
        using that by linarith
      from 2[OF True False] show ?thesis
        unfolding step
      proof (elim disjE conjE)
        assume none: "?r = - 1" "\<forall>j\<ge>i + 1. element array j \<noteq> Some obj"
        have "element array j \<noteq> Some obj" if "i \<le> j" for j
          using split[OF that] False none(2) by blast
        with none(1) show "?r = - 1 \<and> (\<forall>j\<ge>i. element array j \<noteq> Some obj) \<or>
            i \<le> ?r \<and> element array ?r = Some obj \<and>
            (\<forall>j. i \<le> j \<and> j < ?r \<longrightarrow> element array j \<noteq> Some obj)"
          by blast
      next
        assume found: "i + 1 \<le> ?r" "element array ?r = Some obj"
          "\<forall>j. i + 1 \<le> j \<and> j < ?r \<longrightarrow> element array j \<noteq> Some obj"
        have "element array j \<noteq> Some obj" if "i \<le> j" "j < ?r" for j
          using split[OF that(1)] that(2) False found(3) by blast
        moreover have "i \<le> ?r" using found(1) by simp
        ultimately show "?r = - 1 \<and> (\<forall>j\<ge>i. element array j \<noteq> Some obj) \<or>
            i \<le> ?r \<and> element array ?r = Some obj \<and>
            (\<forall>j. i \<le> j \<and> j < ?r \<longrightarrow> element array j \<noteq> Some obj)"
          using found(2) by blast
      qed
    qed
  qed
qed

lemma indexOf_while_first:
  "0 \<le> s \<Longrightarrow> nat s \<le> length ys \<Longrightarrow> x \<notin> set (drop (nat s) ys) \<Longrightarrow>
   indexOf_while (ys @ x # zs) x (Number s) = int (length ys)"
proof (induction "ys @ x # zs" x "Number s" arbitrary: s rule: indexOf_while.induct)
  case (2 obj i)
  show ?case
  proof (cases "nat i = length ys")
    case True
    with 2(2) have "i = int (length ys)" by simp
    then show ?thesis by (simp add: element_def indexOf_while_hit)
  next
    case False
    with 2(3) have lt: "nat i < length ys" by simp
    with 2(2) have lt': "i < int (length (ys @ obj # zs))" by simp
    have "ys ! nat i \<in> set (drop (nat i) ys)"
      using lt by (metis Cons_nth_drop_Suc list.set_intros(1))
    with 2(4) have ne: "ys ! nat i \<noteq> obj" by auto
    then have ne': "element (ys @ obj # zs) i \<noteq> Some obj"
      using lt 2(2) by (simp add: element_def nth_append)
    have "obj \<notin> set (drop (nat (i + 1)) ys)"
      using 2(4) 2(2) by (metis in_set_dropD drop_drop nat_add_distrib add.commute zero_le_one)
    with 2(1)[OF lt' ne'] 2(2) lt have "indexOf_while (ys @ obj # zs) obj (Number (i + 1)) = int (length ys)"
      by simp
    with lt' ne' show ?thesis by (simp add: indexOf_while_miss)
  qed
qed


lemma splice_count_list:
  "0 \<le> i \<Longrightarrow> i < int (length xs) \<Longrightarrow>
   count_list (splice xs i 1) x = count_list xs x - (if xs ! nat i = x then 1 else 0)"
proof -
  assume a: "0 \<le> i" "i < int (length xs)"
  then have k: "nat i < length xs" by simp
  have "xs = take (nat i) xs @ xs ! nat i # drop (nat i + 1) xs"
    using k by (simp add: id_take_nth_drop)
  then have "count_list xs x = count_list (take (nat i) xs @ xs ! nat i # drop (nat i + 1) xs) x"
    by simp
  then have "count_list xs x = count_list (take (nat i) xs) x + (if xs ! nat i = x then 1 else 0) + count_list (drop (nat i + 1) xs) x"
    by (simp only: count_list_append count_list.simps) simp
  then show ?thesis
    using a by (simp add: splice_one_in_range)
qed

lemma removeObserver_member:
  "x \<in> set (observerList (observers this)) \<Longrightarrow>
   observerList (observers (removeObserver this x)) = remove1 x (observerList (observers this))"
proof -
  assume "x \<in> set (observerList (observers this))"
  then obtain ys zs where sp: "observerList (observers this) = ys @ x # zs" and nin: "x \<notin> set ys"
    by (meson split_list_first)
  have "indexOf (observers this) x (Number 0) = int (length ys)"
    using indexOf_while_first[of 0 ys x zs] nin by (simp add: indexOf_def sp)
  then show ?thesis
    using nin by (simp add: removeObserver_def removeAt_def sp splice_one_in_range remove1_append)
qed

lemma get_element: "get this i = element (observerList this) i"
  by (simp add: get_def element_def)

section \<open>Properties of the dispatch loop\<close>

lemma get_nth: "0 \<le> i \<Longrightarrow> i < int (length (observerList l)) \<Longrightarrow> get l i = Some (observerList l ! nat i)"
  by (simp add: get_def element_def)

lemma call_update_sel:
  "fst (call_update update ob ctx r) = fst (update ob ctx (subject r) (store r))"
  "subject (snd (call_update update ob ctx r)) = fst (snd (update ob ctx (subject r) (store r)))"
  "store (snd (call_update update ob ctx r)) = snd (snd (update ob ctx (subject r) (store r)))"
  "calls (snd (call_update update ob ctx r)) = calls r @ [(ob, ctx)]"
  by (simp_all add: call_update_def split: prod.splits)

lemma notify_for_step:
  "i < n \<Longrightarrow> get (observers (subject r)) i = Some ob \<Longrightarrow> call_update update ob ctx r = (None, r')
   \<Longrightarrow> notify_for update ctx n i r = notify_for update ctx n (i + 1) r'"
  by (subst notify_for.simps) simp

lemma notify_for_done: "\<not> i < n \<Longrightarrow> notify_for update ctx n i r = (None, r)"
  by (subst notify_for.simps) simp

lemma notify_for_undefined:
  "i < n \<Longrightarrow> get (observers (subject r)) i = None \<Longrightarrow>
   notify_for update ctx n i r = (Some TypeError, r)"
  by (subst notify_for.simps) simp

lemma notify_for_throw:
  "i < n \<Longrightarrow> get (observers (subject r)) i = Some ob \<Longrightarrow>
   call_update update ob ctx r = (Some e, r') \<Longrightarrow>
   notify_for update ctx n i r = (Some (Thrown e), r')"
  by (subst notify_for.simps) simp

lemma notify_for_next:
  "i < n \<Longrightarrow>
   notify_for update ctx n i r =
     (case get (observers (subject r)) i of
        None \<Rightarrow> (Some TypeError, r)
      | Some ob \<Rightarrow>
          (case call_update update ob ctx r of
             (Some e, r') \<Rightarrow> (Some (Thrown e), r')
           | (None, r') \<Rightarrow> notify_for update ctx n (i + 1) r'))"
  by (subst notify_for.simps) simp

lemmas notify_for_unfold = notify_for_done notify_for_next

lemma notify_for_split:
  "i \<le> k \<Longrightarrow> k \<le> n \<Longrightarrow>
   notify_for update ctx n i r =
     (case notify_for update ctx k i r of
        (None, r') \<Rightarrow> notify_for update ctx n k r'
      | (Some e, r') \<Rightarrow> (Some e, r'))"
proof (induction update ctx k i r rule: notify_for.induct)
  case (1 update ctx k i r)
  show ?case
  proof (cases "i < k")
    case False
    with 1(2) have "i = k" by simp
    then show ?thesis by (simp add: notify_for_done)
  next
    case True
    with 1(3) have "i < n" by simp
    show ?thesis
    proof (cases "get (observers (subject r)) i")
      case None
      with True \<open>i < n\<close> show ?thesis by (simp add: notify_for_undefined)
    next
      case (Some ob)
      obtain t r1 where cu: "call_update update ob ctx r = (t, r1)" by force
      show ?thesis
      proof (cases t)
        case (Some e)
        with True \<open>i < n\<close> \<open>get (observers (subject r)) i = Some ob\<close> cu show ?thesis
          by (simp add: notify_for_throw)
      next
        case None
        with cu have cu': "call_update update ob ctx r = (None, r1)" by simp
        have "i + 1 \<le> k" using True by simp
        from 1(1)[OF True Some cu'[symmetric] refl this 1(3)]
        show ?thesis
          using True \<open>i < n\<close> Some cu' by (simp add: notify_for_step)
      qed
    qed
  qed
qed

lemma notify_for_calls_length:
  "notify_for update ctx n i r = (None, r') \<Longrightarrow> length (calls r') = length (calls r) + nat (n - i)"
proof (induction update ctx n i r rule: notify_for.induct)
  case (1 update ctx n i r)
  show ?case
  proof (cases "i < n")
    case False
    with 1(2) show ?thesis by (simp add: notify_for_done)
  next
    case True
    from 1(2) True obtain ob where g: "get (observers (subject r)) i = Some ob"
      by (cases "get (observers (subject r)) i") (auto simp: notify_for_undefined)
    obtain t r1 where cu: "call_update update ob ctx r = (t, r1)" by force
    with 1(2) True g have t: "t = None" by (cases t) (auto simp: notify_for_throw)
    with 1(2) True g cu have rec: "notify_for update ctx n (i + 1) r1 = (None, r')"
      by (simp add: notify_for_step)
    have "calls r1 = calls r @ [(ob, ctx)]"
      using call_update_sel(4)[of update ob ctx r] cu by simp
    with 1(1)[OF True g _ _ rec] cu t True show ?thesis
      by (simp add: nat_diff_distrib)
  qed
qed

lemma notify_for_only_adds:
  "returns_normally update \<Longrightarrow> only_adds update \<Longrightarrow>
     0 \<le> i \<Longrightarrow> n \<le> int (length (observerList (observers (subject r)))) \<Longrightarrow>
     \<exists>r' added. notify_for update ctx n i r = (None, r') \<and>
       calls r' = calls r @ map (\<lambda>ob. (ob, ctx))
                    (take (nat (n - i)) (drop (nat i) (observerList (observers (subject r))))) \<and>
       observerList (observers (subject r')) = observerList (observers (subject r)) @ added"
proof (induction update ctx n i r rule: notify_for.induct)
  case (1 update ctx n i r)
  note rn = 1(2) and oa = 1(3) and i0 = 1(4) and nle = 1(5)
  let ?xs = "observerList (observers (subject r))"
  show ?case
  proof (cases "i < n")
    case False
    then show ?thesis by (simp add: notify_for_done)
  next
    case True
    have g: "get (observers (subject r)) i = Some (?xs ! nat i)"
      using True i0 nle by (simp add: get_nth)
    obtain t r1 where cu: "call_update update (?xs ! nat i) ctx r = (t, r1)" by force
    have t: "t = None"
      using call_update_sel(1)[of update "?xs ! nat i" ctx r] cu rn
      by (simp add: returns_normally_def)
    have c1: "calls r1 = calls r @ [(?xs ! nat i, ctx)]"
      using call_update_sel(4)[of update "?xs ! nat i" ctx r] cu by simp
    obtain a1 where l1: "observerList (observers (subject r1)) = ?xs @ a1"
    proof -
      from oa obtain a where
        "observerList (observers (fst (snd (update (?xs ! nat i) ctx (subject r) (store r))))) = ?xs @ a"
        unfolding only_adds_def by blast
      then have "observerList (observers (subject r1)) = ?xs @ a"
        using call_update_sel(2)[of update "?xs ! nat i" ctx r] cu by simp
      then show ?thesis using that by blast
    qed
    have cu': "(None, r1) = call_update update (?xs ! nat i) ctx r" using cu t by simp
    have b1: "0 \<le> i + 1" using i0 by simp
    have b2: "n \<le> int (length (observerList (observers (subject r1))))" using nle l1 by simp
    from 1(1)[OF True g cu' refl rn oa b1 b2] obtain r2 a2 where
      run: "notify_for update ctx n (i + 1) r1 = (None, r2)" and
      c2: "calls r2 = calls r1 @ map (\<lambda>ob. (ob, ctx))
             (take (nat (n - (i + 1))) (drop (nat (i + 1)) (observerList (observers (subject r1)))))" and
      l2: "observerList (observers (subject r2)) = observerList (observers (subject r1)) @ a2"
      by blast
    define k where "k = nat i"
    define m where "m = nat (n - (i + 1))"
    have k: "k < length ?xs" and m: "m + Suc k \<le> length ?xs"
      and ni: "nat (n - i) = Suc m" and i1: "nat (i + 1) = Suc k"
      using True i0 nle by (auto simp: k_def m_def)
    have "take (Suc m) (drop k ?xs) = ?xs ! k # take m (drop (Suc k) (?xs @ a1))"
      using k m by (simp add: Cons_nth_drop_Suc[symmetric])
    then have seg: "take (nat (n - i)) (drop (nat i) ?xs)
        = ?xs ! nat i # take (nat (n - (i + 1))) (drop (nat (i + 1)) (?xs @ a1))"
      using ni i1 by (simp add: k_def m_def)
    have "notify_for update ctx n i r = (None, r2)"
      using True g cu t run by (simp add: notify_for_step)
    moreover have "calls r2 = calls r @ map (\<lambda>ob. (ob, ctx)) (take (nat (n - i)) (drop (nat i) ?xs))"
      using c2 c1 l1 seg by simp
    moreover have "observerList (observers (subject r2)) = ?xs @ (a1 @ a2)"
      using l2 l1 by simp
    ultimately show ?thesis by blast
  qed
qed

lemma notify_only_adds:
  assumes "returns_normally update" and "only_adds update"
  shows "\<exists>r added. notify update this ctx s = (None, r)
           \<and> calls r = map (\<lambda>ob. (ob, ctx)) (observerList (observers this))
           \<and> observerList (observers (subject r)) = observerList (observers this) @ added"
  using notify_for_only_adds[OF assms, of 0 "count (observers this)"
          "\<lparr>subject = this, store = s, calls = []\<rparr>" ctx]
  by (simp add: notify_def count_def)

lemma notify_for_adds_for:
  "returns_normally_for update ctx xs0 \<Longrightarrow> only_adds_for update ctx xs0 \<Longrightarrow>
     0 \<le> i \<Longrightarrow> n \<le> int (length xs0) \<Longrightarrow>
     take (length xs0) (observerList (observers (subject r))) = xs0 \<Longrightarrow>
     \<exists>r' added. notify_for update ctx n i r = (None, r') \<and>
       calls r' = calls r @ map (\<lambda>ob. (ob, ctx)) (take (nat (n - i)) (drop (nat i) xs0)) \<and>
       observerList (observers (subject r')) = observerList (observers (subject r)) @ added"
proof (induction update ctx n i r rule: notify_for.induct)
  case (1 update ctx n i r)
  note rn = 1(2) and oa = 1(3) and i0 = 1(4) and nle = 1(5) and pre = 1(6)
  let ?xs = "observerList (observers (subject r))"
  show ?case
  proof (cases "i < n")
    case False
    then show ?thesis by (simp add: notify_for_done)
  next
    case True
    have "length (take (length xs0) ?xs) = length xs0"
      using pre by simp
    then have len: "length xs0 \<le> length ?xs"
      by simp
    have ki: "nat i < length xs0" using True i0 nle by simp
    have nth: "?xs ! nat i = xs0 ! nat i"
      using pre ki by (metis nth_take)
    have mem: "xs0 ! nat i \<in> set xs0" using ki by simp
    have g: "get (observers (subject r)) i = Some (xs0 ! nat i)"
      using ki len i0 nth by (simp add: get_nth)
    obtain t r1 where cu: "call_update update (xs0 ! nat i) ctx r = (t, r1)" by force
    have t: "t = None"
      using call_update_sel(1)[of update "xs0 ! nat i" ctx r] cu rn mem
      by (simp add: returns_normally_for_def)
    have c1: "calls r1 = calls r @ [(xs0 ! nat i, ctx)]"
      using call_update_sel(4)[of update "xs0 ! nat i" ctx r] cu by simp
    obtain a1 where l1: "observerList (observers (subject r1)) = ?xs @ a1"
    proof -
      from oa mem obtain a where
        "observerList (observers (fst (snd (update (xs0 ! nat i) ctx (subject r) (store r))))) = ?xs @ a"
        unfolding only_adds_for_def by blast
      then have "observerList (observers (subject r1)) = ?xs @ a"
        using call_update_sel(2)[of update "xs0 ! nat i" ctx r] cu by simp
      then show ?thesis using that by blast
    qed
    have cu': "(None, r1) = call_update update (xs0 ! nat i) ctx r" using cu t by simp
    have b1: "0 \<le> i + 1" using i0 by simp
    have pre1: "take (length xs0) (observerList (observers (subject r1))) = xs0"
      using l1 len pre by simp
    from 1(1)[OF True g cu' refl rn oa b1 nle pre1] obtain r2 a2 where
      run: "notify_for update ctx n (i + 1) r1 = (None, r2)" and
      c2: "calls r2 = calls r1 @ map (\<lambda>ob. (ob, ctx))
             (take (nat (n - (i + 1))) (drop (nat (i + 1)) xs0))" and
      l2: "observerList (observers (subject r2)) = observerList (observers (subject r1)) @ a2"
      by blast
    define k where "k = nat i"
    define m where "m = nat (n - (i + 1))"
    have k: "k < length xs0"
      and ni: "nat (n - i) = Suc m" and i1: "nat (i + 1) = Suc k"
      using True i0 nle by (auto simp: k_def m_def)
    have "take (Suc m) (drop k xs0) = xs0 ! k # take m (drop (Suc k) xs0)"
      using k by (simp add: Cons_nth_drop_Suc[symmetric])
    then have seg: "take (nat (n - i)) (drop (nat i) xs0)
        = xs0 ! nat i # take (nat (n - (i + 1))) (drop (nat (i + 1)) xs0)"
      using ni i1 by (simp add: k_def m_def)
    have "notify_for update ctx n i r = (None, r2)"
      using True g cu t run by (simp add: notify_for_step)
    moreover have "calls r2 = calls r @ map (\<lambda>ob. (ob, ctx)) (take (nat (n - i)) (drop (nat i) xs0))"
      using c2 c1 seg by simp
    moreover have "observerList (observers (subject r2)) = ?xs @ (a1 @ a2)"
      using l2 l1 by simp
    ultimately show ?thesis by blast
  qed
qed

lemma notify_adds_for:
  assumes "returns_normally_for update ctx (observerList (observers this))"
    and "only_adds_for update ctx (observerList (observers this))"
  shows "\<exists>r added. notify update this ctx s = (None, r)
           \<and> calls r = map (\<lambda>ob. (ob, ctx)) (observerList (observers this))
           \<and> observerList (observers (subject r)) = observerList (observers this) @ added"
  using notify_for_adds_for[OF assms, of 0 "count (observers this)"
          "\<lparr>subject = this, store = s, calls = []\<rparr>"]
  by (simp add: notify_def count_def)

lemma leaves_subject_only_adds: "leaves_subject update \<Longrightarrow> only_adds update"
  by (simp add: leaves_subject_def only_adds_def)

section \<open>Evaluation on concrete subjects\<close>

lemmas indexOf_while_unfold = indexOf_while_end indexOf_while_hit indexOf_while_miss

lemmas run_defs = notify_def count_def notify_for_unfold get_def element_def call_update_def
  removeObserver_def addObserver_def removeAt_def add_def push_def indexOf_def
  indexOf_while_unfold splice_def

lemma quiet_leaves_subject: "leaves_subject quiet"
  by (simp add: leaves_subject_def quiet_def)

lemma quiet_returns_normally: "returns_normally quiet"
  by (simp add: returns_normally_def quiet_def)



lemma adds_one_shot_3_returns_normally_for:
  "returns_normally_for adds_one_shot_3 ctx obs"
  by (simp add: returns_normally_for_def adds_one_shot_3_def)

lemma adds_one_shot_3_only_adds_for:
  "3 \<notin> set obs \<Longrightarrow> only_adds_for adds_one_shot_3 ctx obs"
  by (auto simp: only_adds_for_def adds_one_shot_3_def addObserver_def add_observerList)

lemma first_throws_leaves_subject: "leaves_subject first_throws"
  by (simp add: leaves_subject_def first_throws_def)

section \<open>The claims\<close>

subsection \<open>removeObserver of an observer that is not registered\<close>

text \<open>
  C1. The claim: for an observer \<open>x\<close> that is not in the subject's list,
  \<open>removeObserver(x)\<close> leaves the registry unchanged. The code does not do this when the
  list is not empty. On the subject holding observers 1, 2, 3, \<open>removeObserver(9)\<close>
  computes \<open>indexOf(9, 0) = -1\<close> and passes it to \<open>removeAt\<close> unchecked;
  \<open>splice(-1, 1)\<close> counts the start from the end and deletes observer 3: the list is
  1, 2 afterwards and \<open>count()\<close> falls from 3 to 2.
\<close>

theorem removeObserver_absent_example:
  "removeObserver \<lparr>observers = \<lparr>observerList = [1, 2, 3::nat]\<rparr>\<rparr> 9
     = \<lparr>observers = \<lparr>observerList = [1, 2]\<rparr>\<rparr>
   \<and> count (observers \<lparr>observers = \<lparr>observerList = [1, 2, 3::nat]\<rparr>\<rparr>) = 3
   \<and> count (observers (removeObserver \<lparr>observers = \<lparr>observerList = [1, 2, 3::nat]\<rparr>\<rparr> 9)) = 2"
  by (simp add: removeObserver_def removeAt_def indexOf_def indexOf_while_unfold element_def
        splice_def count_def)

text \<open>
  C2. For every subject whose observer list is not empty and every observer \<open>x\<close> that
  is not in it, \<open>indexOf(x, 0)\<close> is \<open>-1\<close>, and \<open>removeObserver(x)\<close> removes exactly the
  last element of the list (the one added most recently) and decreases \<open>count()\<close> by 1.
\<close>

theorem removeObserver_absent_removes_last:
  "x \<notin> set (observerList (observers this)) \<Longrightarrow> observerList (observers this) \<noteq> [] \<Longrightarrow>
   indexOf (observers this) x (Number 0) = -1
   \<and> observerList (observers (removeObserver this x)) = butlast (observerList (observers this))
   \<and> count (observers (removeObserver this x)) = count (observers this) - 1"
proof -
  assume absent: "x \<notin> set (observerList (observers this))"
    and nonempty: "observerList (observers this) \<noteq> []"
  have notfound: "indexOf (observers this) x (Number 0) = -1"
    using absent by (simp add: indexOf_def indexOf_while_absent)
  have after: "observerList (observers (removeObserver this x)) = butlast (observerList (observers this))"
    using nonempty by (simp add: removeObserver_def removeAt_def notfound splice_minus_one)
  have "int (length (butlast (observerList (observers this))))
          = int (length (observerList (observers this))) - 1"
    using nonempty by (cases "observerList (observers this)" rule: rev_cases) simp_all
  then have "count (observers (removeObserver this x)) = count (observers this) - 1"
    by (simp only: count_def after)
  with notfound after show ?thesis by simp
qed

theorem removeObserver_absent_removes_last_witness:
  "(9::nat) \<notin> set (observerList (observers \<lparr>observers = \<lparr>observerList = [4, 5, 6]\<rparr>\<rparr>))
   \<and> observerList (observers \<lparr>observers = \<lparr>observerList = [4, 5, 6::nat]\<rparr>\<rparr>) \<noteq> []
   \<and> observerList (observers (removeObserver \<lparr>observers = \<lparr>observerList = [4, 5, 6]\<rparr>\<rparr> (9::nat))) = [4, 5]
   \<and> count (observers (removeObserver \<lparr>observers = \<lparr>observerList = [4, 5, 6]\<rparr>\<rparr> (9::nat))) = 2"
  using removeObserver_absent_removes_last[of "9::nat" "\<lparr>observers = \<lparr>observerList = [4, 5, 6]\<rparr>\<rparr>"]
  by (simp add: count_def)

subsection \<open>notify\<close>

text \<open>
  C3, as the code has it. \<open>notify\<close> captures the number of observers when it begins and
  nothing else: it reads the list as it is at each step. Suppose the \<open>update\<close> methods
  of the observers registered when \<open>notify(ctx)\<close> begins, called with \<open>ctx\<close>, only add
  observers and return normally (nothing is asked of the methods of other observers,
  such as the ones added during the pass). Then the pass calls \<open>update\<close> on each
  observer that was registered when \<open>notify\<close> began, once, in the order of the list,
  with \<open>ctx\<close>, and on no other; it does not throw, and the observers registered at the
  beginning are still the first ones of the list afterwards.
\<close>

theorem notify_snapshot_when_handlers_only_add:
  "returns_normally_for update ctx (observerList (observers this)) \<Longrightarrow>
   only_adds_for update ctx (observerList (observers this)) \<Longrightarrow>
   fst (notify update this ctx s) = None
   \<and> calls (snd (notify update this ctx s)) = map (\<lambda>ob. (ob, ctx)) (observerList (observers this))
   \<and> take (length (observerList (observers this)))
        (observerList (observers (subject (snd (notify update this ctx s)))))
       = observerList (observers this)"
proof -
  assume n: "returns_normally_for update ctx (observerList (observers this))"
    and a: "only_adds_for update ctx (observerList (observers this))"
  from notify_adds_for[OF n a, of s] show ?thesis by auto
qed

theorem notify_snapshot_when_handlers_only_add_witness:
  "returns_normally_for (adds_one_shot_3 :: (nat, nat, unit, unit) update) 5
     (observerList (observers \<lparr>observers = \<lparr>observerList = [0, 1, 2]\<rparr>\<rparr>))
   \<and> only_adds_for (adds_one_shot_3 :: (nat, nat, unit, unit) update) 5
     (observerList (observers \<lparr>observers = \<lparr>observerList = [0, 1, 2]\<rparr>\<rparr>))
   \<and> notify (adds_one_shot_3 :: (nat, nat, unit, unit) update)
        \<lparr>observers = \<lparr>observerList = [0, 1, 2]\<rparr>\<rparr> 5 ()
       = (None, \<lparr>subject = \<lparr>observers = \<lparr>observerList = [0, 1, 2, 3]\<rparr>\<rparr>, store = (),
                 calls = [(0, 5), (1, 5), (2, 5)]\<rparr>)"
  using notify_snapshot_when_handlers_only_add[of adds_one_shot_3 "5::nat"
          "\<lparr>observers = \<lparr>observerList = [0, 1, 2]\<rparr>\<rparr>" "()"]
  by (simp add: adds_one_shot_3_returns_normally_for adds_one_shot_3_only_adds_for
        run_defs adds_one_shot_3_def)

text \<open>
  C3 as claimed (the pass works on a snapshot, so a method that removes an observer
  makes it neither skip an unrelated observer nor throw) fails. Observers 0, 1, 2 are
  registered and the \<open>update\<close> method of observer 0 removes observer 0. The pass calls
  observer 0, then reads index 1 of the list 1, 2 and calls observer 2: observer 1 is
  skipped. At index 2, \<open>get\<close> returns \<open>undefined\<close> and \<open>notify\<close> throws a TypeError.
\<close>

theorem notify_self_removal_counterexample:
  "notify (unsubscribes_itself :: (nat, nat, unit, unit) update)
       \<lparr>observers = \<lparr>observerList = [0, 1, 2]\<rparr>\<rparr> 5 ()
     = (Some TypeError,
        \<lparr>subject = \<lparr>observers = \<lparr>observerList = [1, 2]\<rparr>\<rparr>, store = (),
          calls = [(0, 5), (2, 5)]\<rparr>)"
  by (simp add: run_defs unsubscribes_itself_def)

text \<open>
  C4, as the code has it. When no \<open>update\<close> method changes the subject and every one
  returns normally, \<open>notify(ctx)\<close> returns normally and has called \<open>update\<close> on every
  occurrence of an observer in the list, once, in the order of the list, each with
  \<open>ctx\<close>. In particular, after \<open>addObserver(A)\<close>, \<open>addObserver(B)\<close>, \<open>addObserver(A)\<close>
  on a new subject, \<open>count()\<close> is 3 and \<open>notify(ctx)\<close> calls A, B, A in that order with
  \<open>ctx\<close>.
\<close>

theorem notify_invokes_each_in_order:
  "leaves_subject update \<Longrightarrow> returns_normally update \<Longrightarrow>
   fst (notify update this ctx s) = None
   \<and> calls (snd (notify update this ctx s)) = map (\<lambda>ob. (ob, ctx)) (observerList (observers this))
   \<and> count (observers (addObserver (addObserver (addObserver new_Subject A) B) A)) = 3
   \<and> calls (snd (notify update (addObserver (addObserver (addObserver new_Subject A) B) A) ctx s))
       = [(A, ctx), (B, ctx), (A, ctx)]"
proof -
  assume l: "leaves_subject update" and n: "returns_normally update"
  have all: "fst (notify update S ctx s) = None
     \<and> calls (snd (notify update S ctx s)) = map (\<lambda>ob. (ob, ctx)) (observerList (observers S))" for S
    using notify_only_adds[OF n leaves_subject_only_adds[OF l], of S ctx s] by auto
  have three: "observerList (observers (addObserver (addObserver (addObserver new_Subject A) B) A))
      = [A, B, A]"
    by (simp add: addObserver_def add_observerList new_Subject_def new_ObserverList_def)
  from all[of this] all[of "addObserver (addObserver (addObserver new_Subject A) B) A"] three
  show ?thesis by (simp add: count_def)
qed

theorem notify_invokes_each_in_order_witness:
  "leaves_subject (quiet :: (nat, nat, unit, unit) update)
   \<and> returns_normally (quiet :: (nat, nat, unit, unit) update)
   \<and> notify (quiet :: (nat, nat, unit, unit) update) \<lparr>observers = \<lparr>observerList = [4, 6, 4]\<rparr>\<rparr> 5 ()
       = (None, \<lparr>subject = \<lparr>observers = \<lparr>observerList = [4, 6, 4]\<rparr>\<rparr>, store = (),
                 calls = [(4, 5), (6, 5), (4, 5)]\<rparr>)"
  using notify_invokes_each_in_order[OF quiet_leaves_subject quiet_returns_normally,
          of "\<lparr>observers = \<lparr>observerList = [4, 6, 4]\<rparr>\<rparr>" "5::nat" "()" 4 6]
  by (simp add: quiet_leaves_subject quiet_returns_normally run_defs quiet_def)

text \<open>
  C4 as claimed asks only that the methods do not change the list. That is not enough:
  observers 0 and 1 are registered, no method changes the subject, and the method of
  observer 0 throws. \<open>notify\<close> calls observer 0 and ends with what it threw; observer 1
  is not called.
\<close>

theorem notify_throwing_handler_counterexample:
  "leaves_subject (first_throws :: (nat, nat, unit, string) update)
   \<and> notify first_throws \<lparr>observers = \<lparr>observerList = [0, 1]\<rparr>\<rparr> (5::nat) ()
     = (Some (Thrown ''boom''),
        \<lparr>subject = \<lparr>observers = \<lparr>observerList = [0, 1]\<rparr>\<rparr>, store = (), calls = [(0, 5)]\<rparr>)"
  by (simp add: first_throws_leaves_subject run_defs first_throws_def)

text \<open>
  C5. Suppose the loop of \<open>notify(ctx)\<close> reaches index \<open>i\<close> in state \<open>r\<close> (the methods
  called at the indices below \<open>i\<close> returned), the observer at index \<open>i\<close> is \<open>ob\<close>, and its
  \<open>update\<close> method throws \<open>e\<close>. Then \<open>notify\<close> ends by throwing \<open>e\<close> to its caller, in
  the state the method left. The call of \<open>ob\<close> is the last call of the pass, and the
  pass has made \<open>i + 1\<close> calls in all: no observer at a later index is called, and no
  call is repeated.
\<close>

theorem notify_propagates_first_throw:
  "0 \<le> i \<Longrightarrow> i < count (observers this) \<Longrightarrow>
   notify_for update ctx i 0 \<lparr>subject = this, store = s, calls = []\<rparr> = (None, r) \<Longrightarrow>
   get (observers (subject r)) i = Some ob \<Longrightarrow>
   update ob ctx (subject r) (store r) = (Some e, this', s') \<Longrightarrow>
   notify update this ctx s
     = (Some (Thrown e), \<lparr>subject = this', store = s', calls = calls r @ [(ob, ctx)]\<rparr>)
   \<and> length (calls r @ [(ob, ctx)]) = nat i + 1"
proof -
  assume i0: "0 \<le> i" and lt: "i < count (observers this)"
    and reach: "notify_for update ctx i 0 \<lparr>subject = this, store = s, calls = []\<rparr> = (None, r)"
    and g: "get (observers (subject r)) i = Some ob"
    and thr: "update ob ctx (subject r) (store r) = (Some e, this', s')"
  let ?r0 = "\<lparr>subject = this, store = s, calls = []\<rparr>"
  let ?r' = "\<lparr>subject = this', store = s', calls = calls r @ [(ob, ctx)]\<rparr>"
  have cu: "call_update update ob ctx r = (Some e, ?r')"
    using thr by (simp add: call_update_def)
  have "notify_for update ctx (count (observers this)) 0 ?r0
          = notify_for update ctx (count (observers this)) i r"
    using notify_for_split[of 0 i "count (observers this)" update ctx ?r0] i0 lt reach by simp
  also have "\<dots> = (Some (Thrown e), ?r')"
    using lt g cu by (rule notify_for_throw)
  finally have "notify update this ctx s = (Some (Thrown e), ?r')"
    by (simp add: notify_def)
  moreover have "length (calls r) = nat i"
    using notify_for_calls_length[OF reach] by simp
  ultimately show ?thesis by simp
qed

theorem notify_propagates_first_throw_witness:
  "(0::int) \<le> 1 \<and> 1 < count (observers \<lparr>observers = \<lparr>observerList = [1, 0, 2::nat]\<rparr>\<rparr>)
   \<and> notify first_throws \<lparr>observers = \<lparr>observerList = [1, 0, 2]\<rparr>\<rparr> (5::nat) ()
       = (Some (Thrown ''boom''),
          \<lparr>subject = \<lparr>observers = \<lparr>observerList = [1, 0, 2]\<rparr>\<rparr>, store = (),
            calls = [(1, 5), (0, 5)]\<rparr>)"
  using notify_propagates_first_throw[of 1 "\<lparr>observers = \<lparr>observerList = [1, 0, 2::nat]\<rparr>\<rparr>"
          first_throws "5::nat" "()"
          "\<lparr>subject = \<lparr>observers = \<lparr>observerList = [1, 0, 2]\<rparr>\<rparr>, store = (), calls = [(1, 5)]\<rparr>"
          0 "''boom''" "\<lparr>observers = \<lparr>observerList = [1, 0, 2]\<rparr>\<rparr>" "()"]
  by (simp add: run_defs first_throws_def)




subsection \<open>ObserverList\<close>

text \<open>
  C7, as the code has it. For every list, observer \<open>x\<close> and integer start index
  \<open>s \<ge> -2\<^sup>5\<^sup>3\<close> (where the loop's \<open>i++\<close> is exact), \<open>indexOf(x, s)\<close> is the smallest
  index \<open>i \<ge> s\<close> at which the list holds \<open>x\<close>, or \<open>-1\<close> when there is none. The start
  index has no default: when it is left out,
  \<open>indexOf\<close> returns \<open>-1\<close> whatever the list holds. After adding \<open>x\<close> once to a list
  that does not hold it, \<open>indexOf(x, 0)\<close> is the position of \<open>x\<close> (the old \<open>count()\<close>);
  after adding it a second time, \<open>indexOf(x, firstIndex + 1)\<close> is the second position.
\<close>

theorem indexOf_smallest_from_start:
  "(- (2 ^ 53) \<le> s \<longrightarrow>
      indexOf this x (Number s) = -1 \<and> (\<forall>j\<ge>s. get this j \<noteq> Some x)
    \<or> s \<le> indexOf this x (Number s) \<and> get this (indexOf this x (Number s)) = Some x
      \<and> (\<forall>j. s \<le> j \<and> j < indexOf this x (Number s) \<longrightarrow> get this j \<noteq> Some x))
   \<and> indexOf this x Undefined = -1
   \<and> (x \<notin> set (observerList this) \<longrightarrow>
        indexOf (snd (add this x)) x (Number 0) = count this
      \<and> indexOf (snd (add (snd (add this x)) x)) x (Number (count this + 1)) = count this + 1)"
proof -
  let ?xs = "observerList this"
  have scan: "indexOf this x (Number s) = -1 \<and> (\<forall>j\<ge>s. get this j \<noteq> Some x)
    \<or> s \<le> indexOf this x (Number s) \<and> get this (indexOf this x (Number s)) = Some x
      \<and> (\<forall>j. s \<le> j \<and> j < indexOf this x (Number s) \<longrightarrow> get this j \<noteq> Some x)"
    using indexOf_while_from[of ?xs x s] by (simp add: indexOf_def get_element)
  have omitted: "indexOf this x Undefined = -1"
    by (simp add: indexOf_def)
  have once: "indexOf (snd (add this x)) x (Number 0) = count this"
    if "x \<notin> set ?xs"
    using that indexOf_while_first[of 0 ?xs x "[]"]
    by (simp add: indexOf_def add_observerList count_def)
  have twice: "indexOf (snd (add (snd (add this x)) x)) x (Number (count this + 1)) = count this + 1"
    using indexOf_while_first[of "int (length ?xs) + 1" "?xs @ [x]" x "[]"]
    by (simp add: indexOf_def add_observerList count_def nat_add_distrib)
  from scan omitted once twice show ?thesis by blast
qed

theorem indexOf_smallest_from_start_witness:
  "- (2 ^ 53) \<le> (-3::int)
   \<and> indexOf \<lparr>observerList = [1, 2]\<rparr> (5::nat) (Number (-3)) = -1
   \<and> (5::nat) \<notin> set (observerList \<lparr>observerList = [1, 2]\<rparr>)
   \<and> indexOf (snd (add \<lparr>observerList = [1, 2]\<rparr> (5::nat))) 5 (Number 0) = 2
   \<and> indexOf (snd (add (snd (add \<lparr>observerList = [1, 2]\<rparr> (5::nat))) 5)) 5 (Number 3) = 3
   \<and> indexOf \<lparr>observerList = [1, 2]\<rparr> (5::nat) Undefined = -1"
  using indexOf_smallest_from_start[of "-3" "\<lparr>observerList = [1, 2]\<rparr>" "5::nat"]
  by (simp add: count_def indexOf_def indexOf_while_absent)

text \<open>
  C7 as claimed (a start index that is left out defaults to 0) fails. After
  \<open>add(7)\<close> on a new list observer 7 is at index 0 and \<open>indexOf(7, 0)\<close> is 0, but
  \<open>indexOf(7)\<close> is \<open>-1\<close>: the loop variable is \<open>undefined\<close> and the loop test is false.
\<close>

theorem indexOf_omitted_start_counterexample:
  "get (snd (add new_ObserverList (7::nat))) 0 = Some 7
   \<and> indexOf (snd (add new_ObserverList (7::nat))) 7 (Number 0) = 0
   \<and> indexOf (snd (add new_ObserverList (7::nat))) 7 Undefined = -1"
  by (simp add: add_def push_def new_ObserverList_def indexOf_def indexOf_while_unfold
        element_def get_def)

text \<open>
  C8. For every list and every index \<open>i\<close> with \<open>0 \<le> i < count()\<close>, \<open>removeAt(i)\<close>
  removes the element at position \<open>i\<close> and no other: the elements before \<open>i\<close> stay where
  they are and each later element moves down by one, so \<open>get(j)\<close> afterwards is the old
  \<open>get(j)\<close> for \<open>j < i\<close> and the old \<open>get(j + 1)\<close> otherwise (at \<open>j = i\<close>: the old
  \<open>get(i + 1)\<close>); \<open>count()\<close> decreases by exactly 1; and the number of occurrences of any
  observer \<open>x\<close> decreases by 1 when \<open>x\<close> was the element at \<open>i\<close> and is unchanged
  otherwise. Hence \<open>removeObserver(y)\<close> for a registered \<open>y\<close> removes the first
  occurrence of \<open>y\<close> and leaves the others.
\<close>

theorem removeAt_removes_one:
  "0 \<le> i \<Longrightarrow> i < count this \<Longrightarrow>
   observerList (removeAt this i)
     = take (nat i) (observerList this) @ drop (nat i + 1) (observerList this)
   \<and> count (removeAt this i) = count this - 1
   \<and> get (removeAt this i) i = get this (i + 1)
   \<and> get (removeAt this i) j = (if j < i then get this j else get this (j + 1))
   \<and> count_list (observerList (removeAt this i)) x
       = count_list (observerList this) x - (if get this i = Some x then 1 else 0)
   \<and> (y \<in> set (observerList (observers S)) \<longrightarrow>
        observerList (observers (removeObserver S y)) = remove1 y (observerList (observers S)))"
proof -
  assume a: "0 \<le> i" "i < count this"
  let ?xs = "observerList this"
  have b: "i < int (length ?xs)" using a by (simp add: count_def)
  have l: "observerList (removeAt this i) = take (nat i) ?xs @ drop (nat i + 1) ?xs"
    using a(1) b by (simp add: removeAt_def splice_one_in_range)
  have c: "count (removeAt this i) = count this - 1"
    using a(1) b by (simp add: l count_def)
  have g: "get (removeAt this i) j = (if j < i then get this j else get this (j + 1))" for j
  proof (cases "j < i")
    case True
    then show ?thesis
      using a(1) b by (auto simp: get_element element_def l nth_append)
  next
    case False
    then have "nat j - nat i + (nat i + 1) = nat (j + 1)" using a(1) by simp
    with False show ?thesis
      using a(1) b by (auto simp: get_element element_def l nth_append min_def)
  qed
  have n: "count_list (observerList (removeAt this i)) x
       = count_list ?xs x - (if get this i = Some x then 1 else 0)"
    using a(1) b splice_count_list[of i ?xs x]
    by (simp add: removeAt_def get_element element_def)
  from l c g[of i] g[of j] n removeObserver_member[of y S] show ?thesis by simp
qed

theorem removeAt_removes_one_witness:
  "(0::int) \<le> 1 \<and> 1 < count \<lparr>observerList = [7, 8, 7, 9::nat]\<rparr>
   \<and> observerList (removeAt \<lparr>observerList = [7, 8, 7, 9::nat]\<rparr> 1) = [7, 7, 9]
   \<and> count (removeAt \<lparr>observerList = [7, 8, 7, 9::nat]\<rparr> 1) = 3
   \<and> get (removeAt \<lparr>observerList = [7, 8, 7, 9::nat]\<rparr> 1) 1 = Some 7
   \<and> count_list (observerList (removeAt \<lparr>observerList = [7, 8, 7, 9::nat]\<rparr> 1)) 8 = 0
   \<and> (7::nat) \<in> set (observerList (observers \<lparr>observers = \<lparr>observerList = [8, 7, 9, 7]\<rparr>\<rparr>))
   \<and> observerList (observers (removeObserver \<lparr>observers = \<lparr>observerList = [8, 7, 9, 7]\<rparr>\<rparr> (7::nat)))
       = [8, 9, 7]"
  using removeAt_removes_one[of 1 "\<lparr>observerList = [7, 8, 7, 9::nat]\<rparr>" 2 8 "7::nat"
          "\<lparr>observers = \<lparr>observerList = [8, 7, 9, 7]\<rparr>\<rparr>"]
  by (simp add: count_def get_def element_def)

text \<open>
  C9. \<open>add(x)\<close> appends \<open>x\<close> at the end of the sequence and returns the new length; it
  is a total function, so it always returns. After any sequence of \<open>add\<close> calls on a
  new ObserverList, \<open>count()\<close> is the number of calls, and the list holds the added
  observers in the order of the calls, duplicates included.
\<close>

theorem add_appends_and_counts:
  "add this x = (count this + 1, this\<lparr>observerList := observerList this @ [x]\<rparr>)
   \<and> count (snd (add this x)) = count this + 1
   \<and> count (add_all new_ObserverList objs) = int (length objs)
   \<and> observerList (add_all new_ObserverList objs) = objs"
  by (simp add: add_def push_def count_def add_all_observerList new_ObserverList_def)

text \<open>
  C10. For every integer index \<open>i\<close>, \<open>get(i)\<close> returns the observer stored at position
  \<open>i\<close> when \<open>0 \<le> i < count()\<close>, and \<open>undefined\<close> for every other \<open>i\<close>; it is a total
  function, so it never throws.
\<close>

theorem get_in_range_or_undefined:
  "get this i =
     (if 0 \<le> i \<and> i < count this then Some (observerList this ! nat i) else None)"
  by (auto simp: get_def element_def count_def)

end
